theory Spec2Isabelle
  imports Main "HOL-Library.AList"
begin

section \<open>Text\<close>

text \<open>
  Strings are byte strings. \<open>lower\<close> is Python's \<open>str.lower\<close> on ASCII text: the letters
  \<open>A\<close>..\<open>Z\<close> go to \<open>a\<close>..\<open>z\<close>, every other byte stays.
\<close>

definition lower_char :: "char \<Rightarrow> char" where
  "lower_char c =
     (let n = (of_char c :: nat) in if 65 \<le> n \<and> n \<le> 90 then char_of (n + 32) else c)"

definition lower :: "string \<Rightarrow> string" where
  "lower s = map lower_char s"

text \<open>Python's \<open>str(n)\<close> for an integer: decimal digits, a minus sign when negative.\<close>

definition digit_char :: "nat \<Rightarrow> char" where
  "digit_char d = ''0123456789'' ! d"

fun str_nat :: "nat \<Rightarrow> string" where
  "str_nat n = (if n < 10 then [digit_char n] else str_nat (n div 10) @ [digit_char (n mod 10)])"

declare str_nat.simps [simp del]

definition str :: "int \<Rightarrow> string" where
  "str i = (if i < 0 then CHR ''-'' # str_nat (nat (- i)) else str_nat (nat i))"

text \<open>
  \<open>urllib.parse.quote_plus\<close> with its default arguments, on bytes: letters, digits and
  \<open>_.-~\<close> stay, a space becomes \<open>+\<close>, every other byte becomes \<open>%XX\<close> in upper-case hex.
\<close>

definition always_safe :: "char \<Rightarrow> bool" where
  "always_safe c =
     (c \<in> set ''ABCDEFGHIJKLMNOPQRSTUVWXYZabcdefghijklmnopqrstuvwxyz0123456789_.-~'')"

definition hex_digit :: "nat \<Rightarrow> char" where
  "hex_digit d = ''0123456789ABCDEF'' ! d"

definition quote_char :: "char \<Rightarrow> string" where
  "quote_char c =
     (if always_safe c then [c]
      else if c = CHR '' '' then ''+''
      else [CHR ''%'', hex_digit ((of_char c :: nat) div 16), hex_digit ((of_char c :: nat) mod 16)])"

definition url_encode_plus :: "string \<Rightarrow> string" where
  "url_encode_plus s = concat (map quote_char s)"


section \<open>The search client\<close>

text \<open>
  What \<open>get_post_count\<close> reads from a loaded result page: the \<open>data-total\<close> attribute of
  the pagination element (the number of result pages), and, on the last page, the number
  of post links and the number in the hidden-posts notice when one is visible. Any
  Playwright call of \<open>get_post_count\<close> may instead raise \<open>TimeoutError\<close>.
\<close>

record listing =
  data_total :: int
  post_links :: int
  hidden_posts :: "int option"

datatype response = Timeout | Loaded listing

text \<open>
  The browser page keeps the history of the requests made so far, with what came back.
  The remote site is any function of that history and the requested URL.
\<close>

type_synonym history = "(string \<times> response) list"
type_synonym client = "history \<Rightarrow> string \<Rightarrow> response"

datatype exn = TimeoutError | TypeError | KeyError | AttributeError | ValueError | IndexError
  | Exception

datatype 'a outcome = OutOfFuel | Raise exn | Return 'a

definition INITIAL_BOUND_SCORE :: int where "INITIAL_BOUND_SCORE = 512"
definition INITIAL_INTERVAL_SCORE :: int where "INITIAL_INTERVAL_SCORE = 512"

definition get_post_count_on_current_page :: "listing \<Rightarrow> int" where
  "get_post_count_on_current_page p =
     post_links p + (case hidden_posts p of None \<Rightarrow> 0 | Some h \<Rightarrow> h)"

definition posts_url :: "string \<Rightarrow> string" where
  "posts_url tags = ''https://e621.net/posts?tags='' @ tags"

definition score_range :: "string \<Rightarrow> int \<Rightarrow> int \<Rightarrow> string" where
  "score_range tags lo hi = tags @ '' score:'' @ str lo @ ''..'' @ str hi"

definition score_window :: "string \<Rightarrow> int \<Rightarrow> int \<Rightarrow> string" where
  "score_window tags bound interval = score_range tags (max 1 (bound - interval + 1)) bound"

definition score_above :: "string \<Rightarrow> string" where
  "score_above tags = tags @ '' score:>'' @ str INITIAL_BOUND_SCORE"

definition score_nonpositive :: "string \<Rightarrow> string" where
  "score_nonpositive tags = tags @ '' score:<=0''"

section \<open>Counting\<close>

text \<open>
  \<open>get_post_count\<close>, \<open>get_batched_post_count\<close> and the \<open>while\<close> loop of the latter
  (\<open>batch_loop\<close>, on the loop variables \<open>bound\<close>, \<open>interval\<close>, \<open>count\<close>). The loop and the
  recursion between the two functions need not end, so every call and every loop
  iteration takes one unit of fuel; \<open>OutOfFuel\<close> for every amount of fuel is a run that
  never returns. A \<open>None\<close> result is the truncation signal of a batched call.
\<close>

function (sequential) get_post_count :: "nat \<Rightarrow> client \<Rightarrow> history \<Rightarrow> string \<Rightarrow> bool \<Rightarrow> int option outcome \<times> history"
  and get_batched_post_count :: "nat \<Rightarrow> client \<Rightarrow> history \<Rightarrow> string \<Rightarrow> int outcome \<times> history"
  and batch_loop :: "nat \<Rightarrow> client \<Rightarrow> history \<Rightarrow> string \<Rightarrow> int \<Rightarrow> int \<Rightarrow> int \<Rightarrow> int outcome \<times> history"
where
  "get_post_count 0 c h tags is_batched = (OutOfFuel, h)"
| "get_post_count (Suc f) c h tags is_batched =
     (case c h (posts_url tags) of
        Timeout \<Rightarrow> (Raise TimeoutError, h @ [(posts_url tags, Timeout)])
      | Loaded p \<Rightarrow>
          (let h1 = h @ [(posts_url tags, Loaded p)] in
           if data_total p = 0 then (Return (Some 0), h1)
           else if data_total p > 1 \<and> data_total p \<ge> 750 then
             (if is_batched then (Return None, h1)
              else apfst (map_outcome Some) (get_batched_post_count f c h1 tags))
           else (Return (Some (75 * (data_total p - 1) + get_post_count_on_current_page p)), h1)))"
| "get_batched_post_count 0 c h tags = (OutOfFuel, h)"
| "get_batched_post_count (Suc f) c h tags =
     (case batch_loop f c h tags INITIAL_BOUND_SCORE INITIAL_INTERVAL_SCORE 0 of
        (Return count, h1) \<Rightarrow>
          (case get_post_count f c h1 (score_above tags) False of
             (Return (Some c_hi), h2) \<Rightarrow>
               (case get_post_count f c h2 (score_nonpositive tags) False of
                  (Return (Some c_lo), h3) \<Rightarrow> (Return (count + c_hi + c_lo), h3)
                | (Return None, h3) \<Rightarrow> (Raise TypeError, h3)
                | (Raise e, h3) \<Rightarrow> (Raise e, h3)
                | (OutOfFuel, h3) \<Rightarrow> (OutOfFuel, h3))
           | (Return None, h2) \<Rightarrow> (Raise TypeError, h2)
           | (Raise e, h2) \<Rightarrow> (Raise e, h2)
           | (OutOfFuel, h2) \<Rightarrow> (OutOfFuel, h2))
      | (Raise e, h1) \<Rightarrow> (Raise e, h1)
      | (OutOfFuel, h1) \<Rightarrow> (OutOfFuel, h1))"
| "batch_loop 0 c h tags bound interval count = (OutOfFuel, h)"
| "batch_loop (Suc f) c h tags bound interval count =
     (if bound > 0 then
        (case get_post_count f c h (score_window tags bound interval) True of
           (Return None, h1) \<Rightarrow> batch_loop f c h1 tags bound (interval div 2) count
         | (Return (Some batch_count), h1) \<Rightarrow>
             batch_loop f c h1 tags (bound - interval) interval (count + batch_count)
         | (Raise e, h1) \<Rightarrow> (Raise e, h1)
         | (OutOfFuel, h1) \<Rightarrow> (OutOfFuel, h1))
      else (Return count, h))"
  by pat_completeness auto

termination
  by (relation "measure (\<lambda>x. case x of Inl (f, _) \<Rightarrow> f | Inr (Inl (f, _)) \<Rightarrow> f | Inr (Inr (f, _)) \<Rightarrow> f)")
    auto

text \<open>
  \<open>get_post_count_for_year\<close>: the year's query, and the whole count again on a
  \<open>TimeoutError\<close>.
\<close>

definition year_tags :: "int \<Rightarrow> string \<Rightarrow> string" where
  "year_tags year tags =
     url_encode_plus (tags @ '' status:any date:'' @ str year @ ''_yesteryears_ago'')"

fun get_post_count_for_year :: "nat \<Rightarrow> client \<Rightarrow> history \<Rightarrow> int \<Rightarrow> string \<Rightarrow> int option outcome \<times> history" where
  "get_post_count_for_year 0 c h year tags = (OutOfFuel, h)"
| "get_post_count_for_year (Suc f) c h year tags =
     (case get_post_count f c h (year_tags year tags) False of
        (Raise TimeoutError, h1) \<Rightarrow> get_post_count_for_year f c h1 year tags
      | r \<Rightarrow> r)"

section \<open>Reading a history\<close>

text \<open>
  A page is a truncation signal when \<open>get_post_count\<close> takes its \<open>data_total >= 750\<close>
  branch; below that, \<open>reported_count\<close> is the count \<open>get_post_count\<close> computes from it.
  \<open>exact_counts\<close> keeps the requests of a history that were answered with an exact count.
\<close>

definition truncated :: "listing \<Rightarrow> bool" where
  "truncated p = (data_total p \<noteq> 0 \<and> data_total p > 1 \<and> data_total p \<ge> 750)"

definition reported_count :: "listing \<Rightarrow> int" where
  "reported_count p =
     (if data_total p = 0 then 0 else 75 * (data_total p - 1) + get_post_count_on_current_page p)"




section \<open>The result table\<close>




text \<open>
  A row of \<open>csv.DictReader\<close>: the header's names with the row's fields, \<open>None\<close> (the
  \<open>restval\<close>) for the names a short row has no field for, and the surplus fields of a
  long row under the key \<open>None\<close> (the \<open>restkey\<close>).
\<close>

record reader_row =
  cells :: "(string \<times> string option) list"
  surplus :: "string list option"

definition read_row :: "string list \<Rightarrow> string list \<Rightarrow> reader_row" where
  "read_row fieldnames row =
     (let d = AList.updates fieldnames (map Some row) [];
          lf = length fieldnames;
          lr = length row
      in if lf < lr then \<lparr>cells = d, surplus = Some (drop lf row)\<rparr>
         else if lf > lr then
           \<lparr>cells = foldl (\<lambda>d key. AList.update key None d) d (drop lr fieldnames), surplus = None\<rparr>
         else \<lparr>cells = d, surplus = None\<rparr>)"










definition reader_row_text :: "reader_row \<Rightarrow> string \<Rightarrow> string" where
  "reader_row_text row key =
     (case map_of (cells row) key of None \<Rightarrow> [] | Some None \<Rightarrow> [] | Some (Some s) \<Rightarrow> s)"





section \<open>A run\<close>















section \<open>Example clients\<close>

text \<open>Truncates on the score window 1..512, answers exactly on 257..512 and 1..256.\<close>

definition halving_client :: client where
  "halving_client h url =
     (if url = posts_url ''wolf score:1..512'' then
        Loaded \<lparr>data_total = 750, post_links = 75, hidden_posts = None\<rparr>
      else if url = posts_url ''wolf score:257..512'' then
        Loaded \<lparr>data_total = 3, post_links = 10, hidden_posts = Some 2\<rparr>
      else if url = posts_url ''wolf score:1..256'' then
        Loaded \<lparr>data_total = 1, post_links = 7, hidden_posts = None\<rparr>
      else Loaded \<lparr>data_total = 0, post_links = 0, hidden_posts = None\<rparr>)"



text \<open>
  Truncates on its first eleven requests (the year's query and the score windows
  1..512, 257..512, 385..512, ..., 512..512), and finds no post from then on.
\<close>

definition dense_client :: client where
  "dense_client h url =
     (if length h < 11 then Loaded \<lparr>data_total = 750, post_links = 75, hidden_posts = None\<rparr>
      else Loaded \<lparr>data_total = 0, post_links = 0, hidden_posts = None\<rparr>)"



section \<open>Example listings and tables\<close>





section \<open>Properties of counting\<close>

lemma map_outcome_OutOfFuel: "map_outcome g x = OutOfFuel \<longleftrightarrow> x = OutOfFuel"
  by (cases x) auto

text \<open>
  Fuel only bounds the depth of a run: a result other than \<open>OutOfFuel\<close> stays the same
  with more fuel.
\<close>

lemma fuel_mono_step:
  "(\<forall>c h t b. fst (get_post_count f c h t b) \<noteq> OutOfFuel \<longrightarrow>
       get_post_count (Suc f) c h t b = get_post_count f c h t b)
   \<and> (\<forall>c h t. fst (get_batched_post_count f c h t) \<noteq> OutOfFuel \<longrightarrow>
       get_batched_post_count (Suc f) c h t = get_batched_post_count f c h t)
   \<and> (\<forall>c h t bound interval count. fst (batch_loop f c h t bound interval count) \<noteq> OutOfFuel \<longrightarrow>
       batch_loop (Suc f) c h t bound interval count = batch_loop f c h t bound interval count)"
proof (induction f)
  case 0
  show ?case by simp
next
  case (Suc f)
  then have gpc: "\<And>c h t b. fst (get_post_count f c h t b) \<noteq> OutOfFuel \<Longrightarrow>
      get_post_count (Suc f) c h t b = get_post_count f c h t b"
    and gb: "\<And>c h t. fst (get_batched_post_count f c h t) \<noteq> OutOfFuel \<Longrightarrow>
      get_batched_post_count (Suc f) c h t = get_batched_post_count f c h t"
    and bl: "\<And>c h t bound interval count. fst (batch_loop f c h t bound interval count) \<noteq> OutOfFuel \<Longrightarrow>
      batch_loop (Suc f) c h t bound interval count = batch_loop f c h t bound interval count"
    by blast+
  have a: "get_post_count (Suc (Suc f)) c h t b = get_post_count (Suc f) c h t b"
    if "fst (get_post_count (Suc f) c h t b) \<noteq> OutOfFuel" for c h t b
    using that
    by (simp only: get_post_count.simps(2))
      (auto simp: Let_def gb map_outcome_OutOfFuel split: response.splits
        simp del: get_batched_post_count.simps)
  have b: "get_batched_post_count (Suc (Suc f)) c h t = get_batched_post_count (Suc f) c h t"
    if "fst (get_batched_post_count (Suc f) c h t) \<noteq> OutOfFuel" for c h t
    using that
    by (simp only: get_batched_post_count.simps(2))
      (auto simp: gpc bl split: prod.splits outcome.splits option.splits
        simp del: get_post_count.simps batch_loop.simps)
  have c: "batch_loop (Suc (Suc f)) c h t bound interval count = batch_loop (Suc f) c h t bound interval count"
    if "fst (batch_loop (Suc f) c h t bound interval count) \<noteq> OutOfFuel"
    for c h t bound interval count
    using that
    unfolding batch_loop.simps(2) [of "Suc f" c h t bound interval count]
      batch_loop.simps(2) [of f c h t bound interval count]
    by (auto simp: gpc bl split: prod.splits outcome.splits option.splits
        simp del: get_post_count.simps batch_loop.simps)
  from a b c show ?case by blast
qed


lemma fuel_mono:
  "fst (get_post_count f c h t b) \<noteq> OutOfFuel \<Longrightarrow>
     get_post_count (f + k) c h t b = get_post_count f c h t b"
  "fst (get_batched_post_count f c h t) \<noteq> OutOfFuel \<Longrightarrow>
     get_batched_post_count (f + k) c h t = get_batched_post_count f c h t"
  "fst (batch_loop f c h t bound interval count) \<noteq> OutOfFuel \<Longrightarrow>
     batch_loop (f + k) c h t bound interval count = batch_loop f c h t bound interval count"
proof (induction k)
  case 0
  {
    case 1 show ?case by simp
  next
    case 2 show ?case by simp
  next
    case 3 show ?case by simp
  }
next
  case (Suc k)
  {
    case 1
    with Suc.IH(1) fuel_mono_step [of "f + k"] show ?case by simp
  next
    case 2
    with Suc.IH(2) fuel_mono_step [of "f + k"] show ?case by simp
  next
    case 3
    with Suc.IH(3) fuel_mono_step [of "f + k"] show ?case by simp
  }
qed

lemma for_year_fuel_mono_step:
  "fst (get_post_count_for_year f c h y t) \<noteq> OutOfFuel \<Longrightarrow>
     get_post_count_for_year (Suc f) c h y t = get_post_count_for_year f c h y t"
proof (induction f arbitrary: h)
  case 0
  then show ?case by simp
next
  case (Suc f)
  obtain r h1 where a: "get_post_count f c h (year_tags y t) False = (r, h1)"
    by (cases "get_post_count f c h (year_tags y t) False")
  with Suc.prems have ne: "r \<noteq> OutOfFuel"
    by (auto simp del: get_post_count.simps)
  with a fuel_mono_step [of f] have a': "get_post_count (Suc f) c h (year_tags y t) False = (r, h1)"
    by simp
  show ?case
  proof (cases "r = Raise TimeoutError")
    case True
    with a a' Suc.prems Suc.IH [of h1] show ?thesis
      by (simp del: get_post_count.simps)
  next
    case False
    with a a' ne show ?thesis
      by (cases r) (auto simp del: get_post_count.simps split: exn.splits)
  qed
qed


lemma get_post_count_batched:
  "get_post_count (Suc f) c h t True =
     (case c h (posts_url t) of
        Timeout \<Rightarrow> (Raise TimeoutError, h @ [(posts_url t, Timeout)])
      | Loaded p \<Rightarrow>
          (if truncated p then Return None else Return (Some (reported_count p)),
           h @ [(posts_url t, Loaded p)]))"
  by (simp add: truncated_def reported_count_def Let_def split: response.splits)

lemma batch_loop_stuck:
  "0 < bound \<Longrightarrow> fst (batch_loop f c h tags bound 0 count) \<noteq> Return v"
proof (induction f arbitrary: h count)
  case 0
  then show ?case by simp
next
  case (Suc f)
  show ?case
  proof (cases f)
    case 0
    with Suc.prems show ?thesis by simp
  next
    case (Suc g)
    with Suc.prems Suc.IH show ?thesis
      by (auto simp: get_post_count_batched simp del: get_post_count.simps batch_loop.simps(1) split: response.splits)
  qed
qed


lemma batch_loop_step:
  "batch_loop (Suc (Suc g)) c h tags bound interval count =
     (if 0 < bound then
        (case c h (posts_url (score_window tags bound interval)) of
           Timeout \<Rightarrow>
             (Raise TimeoutError, h @ [(posts_url (score_window tags bound interval), Timeout)])
         | Loaded p \<Rightarrow>
             (if truncated p then
                batch_loop (Suc g) c (h @ [(posts_url (score_window tags bound interval), Loaded p)])
                  tags bound (interval div 2) count
              else
                batch_loop (Suc g) c (h @ [(posts_url (score_window tags bound interval), Loaded p)])
                  tags (bound - interval) interval (count + reported_count p)))
      else (Return count, h))"
  by (subst batch_loop.simps(2))
    (simp add: get_post_count_batched del: get_post_count.simps batch_loop.simps split: response.splits)

lemma batch_loop_done:
  "bound \<le> 0 \<Longrightarrow> batch_loop (Suc f) c h tags bound interval count = (Return count, h)"
  by simp










text \<open>
  C3. In the loop, a truncation signal halves the interval (floor division) and keeps
  the bound, and an exact sub-count is added to the total and moves the bound down by
  the current interval. A client that truncates on 1..512 and answers exactly on
  257..512 and 1..256 is asked for 1..512, 257..512 and 1..256, once each, in this order.
\<close>

theorem shrink_slide_step:
  "(0 < bound \<and> c h (posts_url (score_window tags bound interval)) = Loaded p \<and> truncated p \<longrightarrow>
      batch_loop (Suc (Suc f)) c h tags bound interval count =
      batch_loop (Suc f) c (h @ [(posts_url (score_window tags bound interval), Loaded p)])
        tags bound (interval div 2) count)
   \<and> (0 < bound \<and> c h (posts_url (score_window tags bound interval)) = Loaded p \<and> \<not> truncated p \<longrightarrow>
      batch_loop (Suc (Suc f)) c h tags bound interval count =
      batch_loop (Suc f) c (h @ [(posts_url (score_window tags bound interval), Loaded p)])
        tags (bound - interval) interval (count + reported_count p))
   \<and> ((\<forall>h. c h (posts_url (score_range tags 1 512)) = Loaded pa) \<and> truncated pa
      \<and> (\<forall>h. c h (posts_url (score_range tags 257 512)) = Loaded pb) \<and> \<not> truncated pb
      \<and> (\<forall>h. c h (posts_url (score_range tags 1 256)) = Loaded pc) \<and> \<not> truncated pc \<longrightarrow>
      batch_loop (Suc (Suc (Suc (Suc f)))) c h tags INITIAL_BOUND_SCORE INITIAL_INTERVAL_SCORE 0 =
        (Return (reported_count pb + reported_count pc),
         h @ [(posts_url (score_range tags 1 512), Loaded pa),
              (posts_url (score_range tags 257 512), Loaded pb),
              (posts_url (score_range tags 1 256), Loaded pc)]))"
  by (simp add: batch_loop_step batch_loop_done score_window_def INITIAL_BOUND_SCORE_def
        INITIAL_INTERVAL_SCORE_def del: batch_loop.simps get_post_count.simps)

theorem shrink_slide_step_witness:
  "batch_loop 4 halving_client [] ''wolf'' INITIAL_BOUND_SCORE INITIAL_INTERVAL_SCORE 0 =
     (Return 169,
      [(posts_url ''wolf score:1..512'', Loaded \<lparr>data_total = 750, post_links = 75, hidden_posts = None\<rparr>),
       (posts_url ''wolf score:257..512'', Loaded \<lparr>data_total = 3, post_links = 10, hidden_posts = Some 2\<rparr>),
       (posts_url ''wolf score:1..256'', Loaded \<lparr>data_total = 1, post_links = 7, hidden_posts = None\<rparr>)])"
proof -
  let ?p1 = "\<lparr>data_total = 750, post_links = 75, hidden_posts = None\<rparr>"
  let ?p2 = "\<lparr>data_total = 3, post_links = 10, hidden_posts = Some 2\<rparr>"
  let ?p3 = "\<lparr>data_total = 1, post_links = 7, hidden_posts = None\<rparr>"
  have r: "score_range ''wolf'' 1 512 = ''wolf score:1..512''"
    "score_range ''wolf'' 257 512 = ''wolf score:257..512''"
    "score_range ''wolf'' 1 256 = ''wolf score:1..256''"
    by code_simp+
  have c: "\<forall>h. halving_client h (posts_url (score_range ''wolf'' 1 512)) = Loaded ?p1"
    "\<forall>h. halving_client h (posts_url (score_range ''wolf'' 257 512)) = Loaded ?p2"
    "\<forall>h. halving_client h (posts_url (score_range ''wolf'' 1 256)) = Loaded ?p3"
    unfolding r by (simp_all add: halving_client_def posts_url_def)
  have t: "truncated ?p1" "\<not> truncated ?p2" "\<not> truncated ?p3"
    by (simp_all add: truncated_def)
  have n: "reported_count ?p2 + reported_count ?p3 = 169"
    by (simp add: reported_count_def get_post_count_on_current_page_def)
  have four: "4 = Suc (Suc (Suc (Suc 0)))" by simp
  from shrink_slide_step [where c = halving_client and tags = "''wolf''" and f = 0 and h = "[]"
      and pa = "?p1" and pb = "?p2" and pc = "?p3"] c t
  show ?thesis unfolding four r n by simp
qed


lemma get_post_count_below:
  "c h (posts_url t) = Loaded p \<Longrightarrow> \<not> truncated p \<Longrightarrow>
     get_post_count (Suc f) c h t b = (Return (Some (reported_count p)), h @ [(posts_url t, Loaded p)])"
  by (auto simp: truncated_def reported_count_def)


text \<open>
  A pass returns, with fuel enough for its 512 + 9 loop steps at most, against a client
  that never times out, never truncates on a window of width one, and answers the two
  boundary queries below the ceiling: the interval then stays positive.
\<close>

lemma batch_loop_returns:
  assumes "\<forall>h u. c h u \<noteq> Timeout"
    and "\<forall>h b p. c h (posts_url (score_range tags b b)) = Loaded p \<longrightarrow> \<not> truncated p"
  shows "(2::int) ^ k dvd bound \<Longrightarrow> 0 \<le> bound \<Longrightarrow> nat bound + k + 2 \<le> f \<Longrightarrow>
     \<exists>tot h'. batch_loop f c h tags bound (2 ^ k) count = (Return tot, h')"
proof (induction f arbitrary: h bound k count)
  case 0
  then show ?case by simp
next
  case (Suc f)
  from Suc.prems(3) obtain g where f: "f = Suc g" by (cases f) auto
  show ?case
  proof (cases "0 < bound")
    case False
    then show ?thesis by simp
  next
    case pos: True
    let ?u = "posts_url (score_window tags bound (2 ^ k))"
    from assms(1) obtain p where p: "c h ?u = Loaded p"
      by (cases "c h ?u") auto
    let ?h1 = "h @ [(?u, Loaded p)]"
    from Suc.prems(1) pos have le: "(2::int) ^ k \<le> bound"
      by (simp add: zdvd_imp_le)
    show ?thesis
    proof (cases "truncated p")
      case True
      have "k \<noteq> 0"
      proof
        assume "k = 0"
        with pos have "score_window tags bound (2 ^ k) = score_range tags bound bound"
          by (simp add: score_window_def)
        with p assms(2) True show False by auto
      qed
      then obtain j where k: "k = Suc j" by (cases k) auto
      from k Suc.prems(1) have dvd: "(2::int) ^ j dvd bound"
        by (metis dvd_power_le dvd_trans le_SucI order_refl dvd_refl)
      from k Suc.prems(3) have "nat bound + j + 2 \<le> f" by simp
      from Suc.IH [OF dvd Suc.prems(2) this, of ?h1 count] True pos p k show ?thesis
        unfolding f by (simp add: batch_loop_step del: batch_loop.simps get_post_count.simps)
    next
      case False
      from Suc.prems(1) have dvd: "(2::int) ^ k dvd bound - 2 ^ k" by simp
      from le have nonneg: "0 \<le> bound - 2 ^ k" by simp
      have "(1::int) \<le> 2 ^ k" by simp
      with le Suc.prems(3) have "nat (bound - 2 ^ k) + k + 2 \<le> f" by linarith
      from Suc.IH [OF dvd nonneg this, of ?h1 "count + reported_count p"] False pos p show ?thesis
        unfolding f by (simp add: batch_loop_step del: batch_loop.simps get_post_count.simps)
    qed
  qed
qed

lemma partition_pass_returns:
  assumes "\<forall>h u. c h u \<noteq> Timeout"
    and "\<forall>h b p. c h (posts_url (score_range tags b b)) = Loaded p \<longrightarrow> \<not> truncated p"
    and "\<forall>h p. c h (posts_url (score_above tags)) = Loaded p \<longrightarrow> \<not> truncated p"
    and "\<forall>h p. c h (posts_url (score_nonpositive tags)) = Loaded p \<longrightarrow> \<not> truncated p"
    and "524 \<le> fuel"
  shows "\<exists>tot h'. get_batched_post_count fuel c h tags = (Return tot, h')"
proof -
  from assms(5) obtain g where fuel: "fuel = Suc (Suc g)" and g: "522 \<le> g"
    by (cases fuel; cases "fuel - 1") auto
  have d: "(2::int) ^ 9 dvd 512" and n: "(0::int) \<le> 512" by simp_all
  from g have e: "nat 512 + 9 + 2 \<le> Suc g" by simp
  from batch_loop_returns [OF assms(1,2) d n e, of h 0] obtain n h1 where
    "batch_loop (Suc g) c h tags 512 (2 ^ 9) 0 = (Return n, h1)"
    by blast
  then have loop: "batch_loop (Suc g) c h tags INITIAL_BOUND_SCORE INITIAL_INTERVAL_SCORE 0 = (Return n, h1)"
    by (simp add: INITIAL_BOUND_SCORE_def INITIAL_INTERVAL_SCORE_def del: batch_loop.simps)
  from assms(1) obtain p_hi where
    p_hi: "c h1 (posts_url (score_above tags)) = Loaded p_hi"
    by (cases "c h1 (posts_url (score_above tags))") auto
  let ?h2 = "h1 @ [(posts_url (score_above tags), Loaded p_hi)]"
  from assms(1) obtain p_lo where
    p_lo: "c ?h2 (posts_url (score_nonpositive tags)) = Loaded p_lo"
    by (cases "c ?h2 (posts_url (score_nonpositive tags))") auto
  from p_hi assms(3) have t_hi: "\<not> truncated p_hi" by blast
  from p_lo assms(4) have t_lo: "\<not> truncated p_lo" by blast
  note hi = get_post_count_below [where c = c and h = h1 and t = "score_above tags" and p = p_hi
      and f = g and b = False, OF p_hi t_hi]
  note lo = get_post_count_below [where c = c and h = ?h2 and t = "score_nonpositive tags"
      and p = p_lo and f = g and b = False, OF p_lo t_lo]
  show ?thesis
    unfolding fuel by (simp add: loop hi lo del: batch_loop.simps get_post_count.simps)
qed








lemma apfst_map_outcome_Some [simp]:
  "apfst (map_outcome Some) r \<noteq> (Return None, h')"
  "apfst (map_outcome Some) r = (Raise e, h') \<longleftrightarrow> r = (Raise e, h')"
  "apfst (map_outcome Some) r = (OutOfFuel, h') \<longleftrightarrow> r = (OutOfFuel, h')"
  "apfst (map_outcome Some) r = (Return (Some n), h') \<longleftrightarrow> r = (Return n, h')"
  by (cases r; cases "fst r"; auto)+

lemma get_post_count_not_None: "get_post_count f c h t False \<noteq> (Return None, h')"
  by (cases f) (auto simp: Let_def simp del: get_batched_post_count.simps split: response.splits)

lemma no_timeout_no_raise:
  assumes "\<And>h u. c h u \<noteq> Timeout"
  shows "(\<forall>h t b e h'. get_post_count f c h t b \<noteq> (Raise e, h'))
       \<and> (\<forall>h t e h'. get_batched_post_count f c h t \<noteq> (Raise e, h'))
       \<and> (\<forall>h t bound interval count e h'. batch_loop f c h t bound interval count \<noteq> (Raise e, h'))"
proof (induction f)
  case 0
  then show ?case by simp
next
  case (Suc f)
  then have gpc: "\<And>h t b e h'. get_post_count f c h t b \<noteq> (Raise e, h')"
    and gb: "\<And>h t e h'. get_batched_post_count f c h t \<noteq> (Raise e, h')"
    and bl: "\<And>h t bound interval count e h'. batch_loop f c h t bound interval count \<noteq> (Raise e, h')"
    by blast+
  have a: "get_post_count (Suc f) c h t b \<noteq> (Raise e, h')" for h t b e h'
    using gb assms [of h "posts_url t"]
    by (cases "c h (posts_url t)") (auto simp: Let_def simp del: get_batched_post_count.simps)
  have b: "get_batched_post_count (Suc f) c h t \<noteq> (Raise e, h')" for h t e h'
    using gpc bl get_post_count_not_None [of f c]
    by (auto simp del: get_post_count.simps batch_loop.simps
        split: prod.splits outcome.splits option.splits)
  have c: "batch_loop (Suc f) c h t bound interval count \<noteq> (Raise e, h')"
    for h t bound interval count e h'
    using gpc bl
    by (simp only: batch_loop.simps(2))
      (auto simp del: get_post_count.simps batch_loop.simps
        split: prod.splits outcome.splits option.splits)
  from a b c show ?case by blast
qed

lemma dense_loop:
  "length h + k = 10 \<Longrightarrow>
     batch_loop f dense_client h tags 512 (2 ^ k) count \<noteq> (Return v, h')"
proof (induction f arbitrary: h k)
  case 0
  then show ?case by simp
next
  case (Suc f)
  show ?case
  proof (cases f)
    case 0
    then show ?thesis by simp
  next
    case (Suc g)
    let ?p = "\<lparr>data_total = 750, post_links = 75, hidden_posts = None\<rparr>"
    let ?h1 = "h @ [(posts_url (score_window tags 512 (2 ^ k)), Loaded ?p)]"
    from Suc.prems have d: "dense_client h u = Loaded ?p" for u
      by (simp add: dense_client_def)
    have t: "truncated ?p" by (simp add: truncated_def)
    have step: "batch_loop (Suc f) dense_client h tags 512 (2 ^ k) count =
        batch_loop f dense_client ?h1 tags 512 (2 ^ k div 2) count"
      unfolding Suc by (simp add: batch_loop_step d t del: batch_loop.simps get_post_count.simps)
    show ?thesis
    proof (cases k)
      case 0
      with batch_loop_stuck [of 512 f dense_client ?h1 tags count v] show ?thesis
        unfolding step by (auto simp del: batch_loop.simps)
    next
      case (Suc j)
      with Suc.prems have "length ?h1 + j = 10" by simp
      from Suc.IH [OF this] Suc show ?thesis
        unfolding step by (simp del: batch_loop.simps)
    qed
  qed
qed

text \<open>
  C2. The loop has no guard for an interval of zero. Against a client that truncates down
  to the window of width one, \<open>get_post_count_for_year\<close> does not return, whatever the
  fuel: it raises no error and gives no count.
\<close>

theorem degenerate_partition_never_returns:
  "fst (get_post_count_for_year fuel dense_client [] year tags) = OutOfFuel"
proof -
  let ?p = "\<lparr>data_total = 750, post_links = 75, hidden_posts = None\<rparr>"
  let ?t = "year_tags year tags"
  let ?h1 = "[(posts_url ?t, Loaded ?p)]"
  have nt: "dense_client h u \<noteq> Timeout" for h u
    by (simp add: dense_client_def)
  have loop: "fst (batch_loop f dense_client ?h1 ?t INITIAL_BOUND_SCORE INITIAL_INTERVAL_SCORE 0) = OutOfFuel" for f
  proof -
    obtain r h' where r: "batch_loop f dense_client ?h1 ?t 512 (2 ^ 9) 0 = (r, h')"
      by (cases "batch_loop f dense_client ?h1 ?t 512 (2 ^ 9) 0")
    with dense_loop [of ?h1 9 f ?t 0] no_timeout_no_raise [OF nt, of f] have "r = OutOfFuel"
      by (cases r) auto
    with r show ?thesis by (simp add: INITIAL_BOUND_SCORE_def INITIAL_INTERVAL_SCORE_def)
  qed
  have batched: "fst (get_batched_post_count f dense_client ?h1 ?t) = OutOfFuel" for f
  proof (cases f)
    case 0
    then show ?thesis by simp
  next
    case (Suc g)
    with loop [of g] show ?thesis
      by (cases "batch_loop g dense_client ?h1 ?t INITIAL_BOUND_SCORE INITIAL_INTERVAL_SCORE 0")
        (simp del: batch_loop.simps get_post_count.simps)
  qed
  have top: "fst (get_post_count f dense_client [] ?t False) = OutOfFuel" for f
  proof (cases f)
    case 0
    then show ?thesis by simp
  next
    case (Suc g)
    with batched [of g] show ?thesis
      by (cases "get_batched_post_count g dense_client ?h1 ?t")
        (simp add: dense_client_def del: get_batched_post_count.simps)
  qed
  show ?thesis
  proof (cases fuel)
    case 0
    then show ?thesis by simp
  next
    case (Suc f)
    with top [of f] show ?thesis
      by (cases "get_post_count f dense_client [] ?t False")
        (simp del: get_post_count.simps)
  qed
qed








section \<open>Properties of the result table\<close>

lemma lower_char_idem: "lower_char (lower_char c) = lower_char c"
  by (auto simp: lower_char_def Let_def)

lemma lower_idem [simp]: "lower (lower s) = lower s"
  by (simp add: lower_def lower_char_idem)







lemma map_of_updates_map:
  "map_of (AList.updates ks (map g ks) al) k = (if k \<in> set ks then Some (g k) else map_of al k)"
proof (induction ks arbitrary: al)
  case Nil
  then show ?case by simp
next
  case (Cons a ks)
  then show ?case by (simp add: AList.update_conv')
qed

lemma keys_updates_map:
  "set (map fst (AList.updates ks (map g ks) al)) = set ks \<union> set (map fst al)"
  by (induction ks arbitrary: al) (auto simp: AList.dom_update)

lemma read_row_map:
  "read_row hdr (map g hdr) = \<lparr>cells = AList.updates hdr (map (Some \<circ> g) hdr) [], surplus = None\<rparr>"
  by (simp add: read_row_def)


lemma reader_row_text_read_row:
  "reader_row_text (read_row hdr (map g hdr)) k = (if k \<in> set hdr then g k else [])"
  by (simp add: read_row_map reader_row_text_def map_of_updates_map)



















































































end
